theory Spec2Isabelle
  imports Main "HOL-Library.Sublist"
begin

section \<open>Text cleaning of the restaurant table (pulizia.py)\<close>

subsection \<open>Python strings and cell values\<close>

text \<open>
  A Python \<^verbatim>\<open>str\<close> is a sequence of Unicode code points, and the regular expressions
  of the source work on code points, so a string is a list of natural numbers. The
  function \<open>py\<close> reads an ASCII literal as such a list.
\<close>

type_synonym codepoint = nat
type_synonym pystr = "codepoint list"

definition py :: "string \<Rightarrow> pystr" where
  "py s = map of_char s"

text \<open>
  A cell of the data frame read by \<^verbatim>\<open>pd.read_csv\<close> is a missing value (NaN), a string,
  or another scalar (a number or a boolean of a column that pandas parsed as such). The
  text that \<^verbatim>\<open>str()\<close> gives for a scalar of the last kind is the parameter \<open>repr\<close>
  of the functions below.
\<close>

datatype 'a pyval = Missing | Str pystr | Scalar 'a

text \<open>\<^verbatim>\<open>pd.isna(testo)\<close> on a scalar cell.\<close>

fun isna :: "'a pyval \<Rightarrow> bool" where
  "isna Missing = True"
| "isna (Str s) = False"
| "isna (Scalar a) = False"

text \<open>
  \<^verbatim>\<open>str(testo)\<close>: a string is returned as it is. The missing value of pandas is the
  float NaN, printed \<^verbatim>\<open>nan\<close>; \<open>pulisci_testo\<close> returns before it reaches this case.
\<close>

fun py_str :: "('a \<Rightarrow> pystr) \<Rightarrow> 'a pyval \<Rightarrow> pystr" where
  "py_str repr (Str s) = s"
| "py_str repr (Scalar a) = repr a"
| "py_str repr Missing = py ''nan''"

subsection \<open>The library calls of \<^verbatim>\<open>pulisci_testo\<close>\<close>

text \<open>
  Modelled from the spec: \<^verbatim>\<open>unidecode\<close> is a third-party library, its code and its
  tables are not part of the repository. By section 4.2, step 3, it replaces each
  non-ASCII character by an ASCII approximation, which may be empty or several
  characters long, and leaves every ASCII character (code point below 128) as it is.
  The table of the approximations is the parameter \<open>tbl\<close>.
\<close>

definition unidecode :: "(codepoint \<Rightarrow> pystr) \<Rightarrow> pystr \<Rightarrow> pystr" where
  "unidecode tbl s = concat (map (\<lambda>c. if c < 128 then [c] else tbl c) s)"

text \<open>
  The character class \<^verbatim>\<open>[A-Za-z0-9\- ]\<close> of the first substitution, range by range.
\<close>

definition allowed :: "codepoint \<Rightarrow> bool" where
  "allowed c = ((65 \<le> c \<and> c \<le> 90) \<or> (97 \<le> c \<and> c \<le> 122) \<or> (48 \<le> c \<and> c \<le> 57)
     \<or> c = 45 \<or> c = 32)"

text \<open>
  \<^verbatim>\<open>re.sub(r'[^A-Za-z0-9\- ]', ' ', testo)\<close>: every match is one character outside the
  class, and each is replaced by a space.
\<close>

definition sub_not_allowed :: "pystr \<Rightarrow> pystr" where
  "sub_not_allowed s = map (\<lambda>c. if allowed c then c else 32) s"

text \<open>
  The whitespace of Python 3 for \<^verbatim>\<open>str\<close>: the same characters for \<^verbatim>\<open>\s\<close> in a
  pattern and for \<^verbatim>\<open>str.strip()\<close>.
\<close>

definition py_isspace :: "codepoint \<Rightarrow> bool" where
  "py_isspace c = ((9 \<le> c \<and> c \<le> 13) \<or> (28 \<le> c \<and> c \<le> 32) \<or> c = 0x85 \<or> c = 0xA0
     \<or> c = 0x1680 \<or> (0x2000 \<le> c \<and> c \<le> 0x200A) \<or> c = 0x2028 \<or> c = 0x2029
     \<or> c = 0x202F \<or> c = 0x205F \<or> c = 0x3000)"

text \<open>
  \<^verbatim>\<open>re.sub(r'\s+', ' ', testo)\<close>: the scan goes from left to right; where a whitespace
  character stands, the greedy \<^verbatim>\<open>\s+\<close> matches up to the end of the run, one space
  is written and the scan goes on behind the match; any other character is copied.
\<close>

function sub_spaces :: "pystr \<Rightarrow> pystr" where
  "sub_spaces [] = []"
| "sub_spaces (c # cs) =
     (if py_isspace c then 32 # sub_spaces (dropWhile py_isspace cs)
      else c # sub_spaces cs)"
  by pat_completeness auto
termination
  by (relation "measure length") (auto simp: less_Suc_eq_le length_dropWhile_le)

text \<open>\<^verbatim>\<open>testo.strip()\<close>: whitespace is removed at both ends.\<close>

definition py_strip :: "pystr \<Rightarrow> pystr" where
  "py_strip s = rev (dropWhile py_isspace (rev (dropWhile py_isspace s)))"

subsection \<open>The cleaning function\<close>

definition pulisci_testo :: "(codepoint \<Rightarrow> pystr) \<Rightarrow> ('a \<Rightarrow> pystr) \<Rightarrow> 'a pyval \<Rightarrow> pystr" where
  "pulisci_testo tbl repr testo =
     (if isna testo then []
      else
        let testo1 = py_str repr testo;
            testo2 = unidecode tbl testo1;
            testo3 = sub_not_allowed testo2;
            testo4 = py_strip (sub_spaces testo3)
        in testo4)"

subsection \<open>The data frame\<close>

text \<open>
  The table that \<^verbatim>\<open>pd.read_csv\<close> returns: the column names of the header, and the
  rows in the order of the file, each with its index label and one cell for every
  column. \<^verbatim>\<open>read_csv\<close> renames repeated header names, so the names are distinct.
\<close>

record 'a dataframe =
  columns :: "pystr list"
  rows :: "(pystr \<times> 'a pyval list) list"

definition wf_dataframe :: "'a dataframe \<Rightarrow> bool" where
  "wf_dataframe df =
     (distinct (columns df) \<and> list_all (\<lambda>r. length (snd r) = length (columns df)) (rows df))"

text \<open>
  Modelled from the spec: \<^verbatim>\<open>df.dropna(how='all', inplace=True)\<close> is a call into pandas,
  whose code is not part of the repository. By section 4.1 it removes every row in
  which all values are missing: pandas computes for each row whether any cell is not
  missing and keeps the rows of this mask, with their labels.
\<close>

definition notna_any :: "'a pyval list \<Rightarrow> bool" where
  "notna_any cells = list_ex (\<lambda>v. \<not> isna v) cells"

definition dropna_all :: "'a dataframe \<Rightarrow> 'a dataframe" where
  "dropna_all df =
     (let mask = map (\<lambda>r. notna_any (snd r)) (rows df)
      in df\<lparr>rows := map fst (filter snd (zip (rows df) mask))\<rparr>)"

subsection \<open>Cleaning the text columns\<close>

definition colonne_testo :: "pystr list" where
  "colonne_testo = map py [''Nome'', ''Nazione'', ''Citta'', ''Indirizzo'', ''Delivery'',
     ''Online'', ''Tipo_di_cucina'']"

datatype py_error = KeyError pystr

fun position :: "'k \<Rightarrow> 'k list \<Rightarrow> nat option" where
  "position x [] = None"
| "position x (y # ys) = (if x = y then Some 0 else map_option Suc (position x ys))"

text \<open>\<^verbatim>\<open>df[col]\<close>, read: the cells of the column, or a \<^verbatim>\<open>KeyError\<close> for an unknown name.\<close>

definition getitem :: "'a dataframe \<Rightarrow> pystr \<Rightarrow> py_error + 'a pyval list" where
  "getitem df col =
     (case position col (columns df) of
        None \<Rightarrow> Inl (KeyError col)
      | Some j \<Rightarrow> Inr (map (\<lambda>r. snd r ! j) (rows df)))"

text \<open>
  \<^verbatim>\<open>df[col] = ser\<close>, for a series with the labels of the frame: the cells of an
  existing column are replaced, a new name is added as the last column.
\<close>

definition setitem :: "'a dataframe \<Rightarrow> pystr \<Rightarrow> 'a pyval list \<Rightarrow> 'a dataframe" where
  "setitem df col ser =
     (case position col (columns df) of
        Some j \<Rightarrow> df\<lparr>rows := map (\<lambda>(r, v). (fst r, (snd r)[j := v])) (zip (rows df) ser)\<rparr>
      | None \<Rightarrow> df\<lparr>columns := columns df @ [col],
                    rows := map (\<lambda>(r, v). (fst r, snd r @ [v])) (zip (rows df) ser)\<rparr>)"

text \<open>\<^verbatim>\<open>ser.apply(pulisci_testo)\<close>: the function is called on every cell; it returns a string.\<close>

definition apply_pulisci_testo ::
  "(codepoint \<Rightarrow> pystr) \<Rightarrow> ('a \<Rightarrow> pystr) \<Rightarrow> 'a pyval list \<Rightarrow> 'a pyval list" where
  "apply_pulisci_testo tbl repr ser = map (\<lambda>v. Str (pulisci_testo tbl repr v)) ser"

text \<open>
  The body of the loop:
  \<^verbatim>\<open>if col in df.columns: df[col] = df[col].apply(pulisci_testo)\<close>
\<close>

definition pulisci_colonna ::
  "(codepoint \<Rightarrow> pystr) \<Rightarrow> ('a \<Rightarrow> pystr) \<Rightarrow> 'a dataframe \<Rightarrow> pystr \<Rightarrow> py_error + 'a dataframe" where
  "pulisci_colonna tbl repr df col =
     (if col \<in> set (columns df) then
        (case getitem df col of
           Inl e \<Rightarrow> Inl e
         | Inr ser \<Rightarrow> Inr (setitem df col (apply_pulisci_testo tbl repr ser)))
      else Inr df)"

text \<open>\<^verbatim>\<open>for col in colonne_testo: ...\<close>; an exception ends the loop.\<close>

fun pulisci_colonne ::
  "(codepoint \<Rightarrow> pystr) \<Rightarrow> ('a \<Rightarrow> pystr) \<Rightarrow> pystr list \<Rightarrow> 'a dataframe \<Rightarrow> py_error + 'a dataframe" where
  "pulisci_colonne tbl repr [] df = Inr df"
| "pulisci_colonne tbl repr (col # cols) df =
     (case pulisci_colonna tbl repr df col of
        Inl e \<Rightarrow> Inl e
      | Inr df' \<Rightarrow> pulisci_colonne tbl repr cols df')"

subsection \<open>Writing the table\<close>

text \<open>
  Modelled from the spec: \<^verbatim>\<open>df.to_csv(path, index=False, encoding='utf-8', sep=';', na_rep='')\<close>
  is a call into pandas, whose code is not part of the repository. By section 4.4 the
  output is a header record of the column names and one record for each row, in the
  order of the table, a missing value written as \<^verbatim>\<open>na_rep\<close>; with \<^verbatim>\<open>index=True\<close>
  every record would begin with the field of the row label. pandas hands each record to
  the csv writer of the standard library together with the delimiter. This writer
  (which quotes a field that contains the delimiter, a quote or a line break, and ends
  the line) is the parameter \<open>writerow\<close>; the encoding into bytes is not part of the
  model.
\<close>

definition cell_text :: "('a \<Rightarrow> pystr) \<Rightarrow> pystr \<Rightarrow> 'a pyval \<Rightarrow> pystr" where
  "cell_text repr na_rep v = (if isna v then na_rep else py_str repr v)"

definition csv_records :: "('a \<Rightarrow> pystr) \<Rightarrow> 'a dataframe \<Rightarrow> bool \<Rightarrow> pystr \<Rightarrow> pystr list list" where
  "csv_records repr df index na_rep =
     (let header = (if index then [[]] else []) @ columns df;
          body = map (\<lambda>r. (if index then [fst r] else []) @ map (cell_text repr na_rep) (snd r))
                   (rows df)
      in header # body)"

definition to_csv ::
  "('a \<Rightarrow> pystr) \<Rightarrow> (pystr \<Rightarrow> pystr list \<Rightarrow> pystr) \<Rightarrow> 'a dataframe \<Rightarrow> bool \<Rightarrow> pystr \<Rightarrow> pystr
     \<Rightarrow> pystr list" where
  "to_csv repr writerow df index sep na_rep =
     map (writerow sep) (csv_records repr df index na_rep)"

text \<open>
  \<^verbatim>\<open>sep.join(fields)\<close>: the line of a record none of whose fields needs quoting, without
  the line terminator. It stands for the writer in the examples.
\<close>

fun join :: "pystr \<Rightarrow> pystr list \<Rightarrow> pystr" where
  "join sep [] = []"
| "join sep [f] = f"
| "join sep (f # g # fs) = f @ sep @ join sep (g # fs)"

subsection \<open>The specification of the normalizer (spec.md, section 4.2)\<close>

text \<open>
  The six steps of the specification, each written from its sentence and not from
  the code, for the comparison with \<open>pulisci_testo\<close>.
\<close>

text \<open>The target alphabet \<open>{A-Z, a-z, 0-9, space, hyphen}\<close>.\<close>

definition alphabet :: "codepoint set" where
  "alphabet = {of_char CHR ''A'' .. of_char CHR ''Z''} \<union> {of_char CHR ''a'' .. of_char CHR ''z''}
     \<union> {of_char CHR ''0'' .. of_char CHR ''9''} \<union> {of_char CHR '' '', of_char CHR ''-''}"

text \<open>Step 3: each non-ASCII character is replaced by its approximation.\<close>

definition transliterate :: "(codepoint \<Rightarrow> pystr) \<Rightarrow> pystr \<Rightarrow> pystr" where
  "transliterate tbl s = concat (map (\<lambda>c. if 128 \<le> c then tbl c else [c]) s)"

text \<open>Step 4: every character that is not in the alphabet becomes a single space.\<close>

definition char_filter :: "pystr \<Rightarrow> pystr" where
  "char_filter s = map (\<lambda>c. if c \<in> alphabet then c else 32) s"

text \<open>
  Step 5: the string is cut into its maximal runs, a run being whitespace only or free
  of whitespace, and every whitespace run becomes a single space.
\<close>

function runs :: "('c \<Rightarrow> bool) \<Rightarrow> 'c list \<Rightarrow> 'c list list" where
  "runs P [] = []"
| "runs P (x # xs) =
     (x # takeWhile (\<lambda>y. P y = P x) xs) # runs P (dropWhile (\<lambda>y. P y = P x) xs)"
  by pat_completeness auto
termination
  by (relation "measure (\<lambda>(P, xs). length xs)") (auto simp: less_Suc_eq_le length_dropWhile_le)

definition whitespace_collapse :: "pystr \<Rightarrow> pystr" where
  "whitespace_collapse s =
     concat (map (\<lambda>r. if list_all py_isspace r then [32] else r) (runs py_isspace s))"

text \<open>Step 6: leading and trailing spaces are removed.\<close>

definition trim :: "pystr \<Rightarrow> pystr" where
  "trim s = rev (dropWhile (\<lambda>c. c = 32) (rev (dropWhile (\<lambda>c. c = 32) s)))"

fun normalize :: "(codepoint \<Rightarrow> pystr) \<Rightarrow> ('a \<Rightarrow> pystr) \<Rightarrow> 'a pyval \<Rightarrow> pystr" where
  "normalize tbl repr Missing = []"
| "normalize tbl repr v =
     trim (whitespace_collapse (char_filter (transliterate tbl (py_str repr v))))"

text \<open>
  The cleaned form of section 3: the characters are of the alphabet, no two spaces are
  adjacent, and no space stands at either end.
\<close>

fun adjacent_spaces :: "pystr \<Rightarrow> bool" where
  "adjacent_spaces (a # b # s) = ((a = 32 \<and> b = 32) \<or> adjacent_spaces (b # s))"
| "adjacent_spaces s = False"

fun starts_with_space :: "pystr \<Rightarrow> bool" where
  "starts_with_space [] = False"
| "starts_with_space (c # s) = (c = 32)"

definition ends_with_space :: "pystr \<Rightarrow> bool" where
  "ends_with_space s = starts_with_space (rev s)"

definition cleaned :: "pystr \<Rightarrow> bool" where
  "cleaned s = (list_all allowed s \<and> \<not> adjacent_spaces s \<and> \<not> starts_with_space s
     \<and> \<not> ends_with_space s)"

subsection \<open>Concrete parameters for the examples\<close>

text \<open>
  Modelled from the spec: the entries of the transliteration table that the examples of
  section 8 use (accented Latin letters map to their unaccented form, the en dash to a
  hyphen); every other character is dropped.
\<close>

definition tbl_esempi :: "codepoint \<Rightarrow> pystr" where
  "tbl_esempi c =
     (if c = 0xC4 then py ''A''
      else if c = 0xD8 then py ''O''
      else if c = 0xE9 then py ''e''
      else if c = 0xFC then py ''u''
      else if c = 0x2013 then py ''-''
      else [])"

text \<open>\<^verbatim>\<open>str()\<close> of a boolean, for frames whose other scalars are booleans.\<close>

definition str_bool :: "bool \<Rightarrow> pystr" where
  "str_bool b = (if b then py ''True'' else py ''False'')"

text \<open>A small frame: a text column, a column outside the text columns, a boolean text column.\<close>

definition esempio_df :: "bool dataframe" where
  "esempio_df = \<lparr>columns = [py ''Nome'', py ''Prezzo'', py ''Online''],
     rows = [(py ''0'', [Str ([67, 97, 102, 0xE9]), Str (py ''$$''), Scalar True]),
             (py ''1'', [Missing, Missing, Missing]),
             (py ''2'', [Missing, Str (py ''20 EUR''), Missing])]\<rparr>"

subsection \<open>Auxiliary functions of the proofs\<close>

text \<open>The cells of a row after the column at position \<open>j\<close> has been cleaned.\<close>

definition clean_at ::
  "(codepoint \<Rightarrow> pystr) \<Rightarrow> ('a \<Rightarrow> pystr) \<Rightarrow> nat \<Rightarrow> 'a pyval list \<Rightarrow> 'a pyval list" where
  "clean_at tbl repr j cells = cells[j := Str (pulisci_testo tbl repr (cells ! j))]"

text \<open>The cells of a row after the columns named in \<open>cs\<close> have been cleaned.\<close>

definition clean_cell ::
  "(codepoint \<Rightarrow> pystr) \<Rightarrow> ('a \<Rightarrow> pystr) \<Rightarrow> pystr list \<Rightarrow> pystr \<Rightarrow> 'a pyval \<Rightarrow> 'a pyval" where
  "clean_cell tbl repr cs name v = (if name \<in> set cs then Str (pulisci_testo tbl repr v) else v)"

definition clean_row ::
  "(codepoint \<Rightarrow> pystr) \<Rightarrow> ('a \<Rightarrow> pystr) \<Rightarrow> pystr list \<Rightarrow> pystr list \<Rightarrow> 'a pyval list
     \<Rightarrow> 'a pyval list" where
  "clean_row tbl repr cs names cells = map2 (clean_cell tbl repr cs) names cells"

section \<open>Properties of the normalizer\<close>

subsection \<open>The alphabet of the result\<close>


lemma allowed_ascii: "allowed c \<Longrightarrow> c < 128"
  by (auto simp: allowed_def)

lemma allowed_isspace: "allowed c \<Longrightarrow> py_isspace c \<longleftrightarrow> c = 32"
  by (auto simp: allowed_def py_isspace_def)

lemma isspace_32: "py_isspace 32"
  by (simp add: py_isspace_def)

lemma allowed_32: "allowed 32"
  by (simp add: allowed_def)

lemma sub_not_allowed_allowed: "list_all allowed (sub_not_allowed s)"
  by (induction s) (auto simp: sub_not_allowed_def allowed_32)

lemma set_sub_spaces: "set (sub_spaces s) \<subseteq> insert 32 (set s)"
proof (induction s rule: sub_spaces.induct)
  case 1
  then show ?case by simp
next
  case (2 c cs)
  show ?case
  proof (cases "py_isspace c")
    case True
    with 2 have "set (sub_spaces (dropWhile py_isspace cs)) \<subseteq> insert 32 (set (dropWhile py_isspace cs))"
      by simp
    moreover have "set (dropWhile py_isspace cs) \<subseteq> set cs"
      by (auto dest: set_dropWhileD)
    ultimately show ?thesis using True by auto
  next
    case False
    with 2 show ?thesis by auto
  qed
qed

lemma set_py_strip: "set (py_strip s) \<subseteq> set s"
  by (auto simp: py_strip_def dest!: set_dropWhileD)

lemma sub_spaces_allowed: "list_all allowed s \<Longrightarrow> list_all allowed (sub_spaces s)"
  using set_sub_spaces [of s] by (auto simp: list_all_iff allowed_32)

lemma py_strip_allowed: "list_all allowed s \<Longrightarrow> list_all allowed (py_strip s)"
  using set_py_strip [of s] by (auto simp: list_all_iff)

lemma pulisci_testo_allowed: "list_all allowed (pulisci_testo tbl repr x)"
  by (simp add: pulisci_testo_def Let_def py_strip_allowed sub_spaces_allowed sub_not_allowed_allowed)

lemma allowed_alphabet: "allowed c \<longleftrightarrow> c \<in> alphabet"
  by (auto simp: allowed_def alphabet_def)

subsection \<open>Spaces in the result\<close>

lemma adjacent_spaces_iff: "adjacent_spaces s \<longleftrightarrow> (\<exists>u v. s = u @ [32, 32] @ v)"
proof (induction s rule: adjacent_spaces.induct)
  case (1 a b s)
  show ?case
  proof
    assume "adjacent_spaces (a # b # s)"
    then consider "a = 32 \<and> b = 32" | "adjacent_spaces (b # s)" by auto
    then show "\<exists>u v. a # b # s = u @ [32, 32] @ v"
    proof cases
      case 1
      then have "a # b # s = [] @ [32, 32] @ s" by simp
      then show ?thesis by blast
    next
      case 2
      with "1.IH" obtain u v where "b # s = u @ [32, 32] @ v" by blast
      then have "a # b # s = (a # u) @ [32, 32] @ v" by simp
      then show ?thesis by blast
    qed
  next
    assume "\<exists>u v. a # b # s = u @ [32, 32] @ v"
    then obtain u v where uv: "a # b # s = u @ [32, 32] @ v" by blast
    show "adjacent_spaces (a # b # s)"
    proof (cases u)
      case Nil
      with uv show ?thesis by simp
    next
      case (Cons x u')
      with uv have "b # s = u' @ [32, 32] @ v" by simp
      with "1.IH" have "adjacent_spaces (b # s)" by blast
      then show ?thesis by simp
    qed
  qed
qed (auto simp: Cons_eq_append_conv)

lemma starts_with_space_iff: "starts_with_space s \<longleftrightarrow> (\<exists>t. s = 32 # t)"
  by (cases s) auto

lemma ends_with_space_iff: "ends_with_space s \<longleftrightarrow> (\<exists>t. s = t @ [32])"
proof
  assume "ends_with_space s"
  then obtain t where "rev s = 32 # t"
    by (auto simp: ends_with_space_def starts_with_space_iff)
  then have "s = rev t @ [32]" by (simp add: rev_swap)
  then show "\<exists>t. s = t @ [32]" by blast
next
  assume "\<exists>t. s = t @ [32]"
  then show "ends_with_space s" by (auto simp: ends_with_space_def)
qed

lemma sub_spaces_hd: "sub_spaces s = c # r \<Longrightarrow> py_isspace c \<Longrightarrow> \<exists>d t. s = d # t \<and> py_isspace d"
  by (cases s) (auto split: if_splits)

lemma sub_spaces_no_adjacent: "\<not> adjacent_spaces (sub_spaces s)"
proof (induction s rule: sub_spaces.induct)
  case 1
  then show ?case by simp
next
  case (2 c cs)
  show ?case
  proof (cases "py_isspace c")
    case True
    let ?d = "dropWhile py_isspace cs"
    from True 2 have ih: "\<not> adjacent_spaces (sub_spaces ?d)" by simp
    have "\<not> starts_with_space (sub_spaces ?d)"
    proof
      assume "starts_with_space (sub_spaces ?d)"
      then obtain t where "sub_spaces ?d = 32 # t" by (auto simp: starts_with_space_iff)
      from sub_spaces_hd [OF this isspace_32] obtain d u where du: "?d = d # u" "py_isspace d"
        by blast
      then have "?d \<noteq> []" by simp
      from hd_dropWhile [OF this] du show False by simp
    qed
    with ih have "\<not> adjacent_spaces (32 # sub_spaces ?d)"
      by (cases "sub_spaces ?d") auto
    with True show ?thesis by simp
  next
    case False
    then have "c \<noteq> 32" using isspace_32 by auto
    moreover from False 2 have "\<not> adjacent_spaces (sub_spaces cs)" by simp
    ultimately have "\<not> adjacent_spaces (c # sub_spaces cs)"
      by (cases "sub_spaces cs") auto
    with False show ?thesis by simp
  qed
qed

lemma py_strip_decomp: "\<exists>u v. s = u @ py_strip s @ v"
proof -
  let ?t = "dropWhile py_isspace s"
  have "s = takeWhile py_isspace s @ ?t" by simp
  moreover have "?t = rev (takeWhile py_isspace (rev ?t) @ dropWhile py_isspace (rev ?t))"
    by (simp only: takeWhile_dropWhile_id rev_rev_ident)
  then have "?t = py_strip s @ rev (takeWhile py_isspace (rev ?t))"
    by (simp only: rev_append py_strip_def)
  ultimately have "s = takeWhile py_isspace s @ py_strip s @ rev (takeWhile py_isspace (rev ?t))"
    by simp
  then show ?thesis by blast
qed

lemma py_strip_no_adjacent: "\<not> adjacent_spaces s \<Longrightarrow> \<not> adjacent_spaces (py_strip s)"
proof
  assume a: "\<not> adjacent_spaces s" and b: "adjacent_spaces (py_strip s)"
  from b obtain u v where "py_strip s = u @ [32, 32] @ v" by (auto simp: adjacent_spaces_iff)
  moreover obtain p q where "s = p @ py_strip s @ q" using py_strip_decomp by blast
  ultimately have "s = (p @ u) @ [32, 32] @ (v @ q)" by simp
  then have "adjacent_spaces s" unfolding adjacent_spaces_iff by blast
  with a show False by simp
qed

lemma py_strip_last: "py_strip s \<noteq> [] \<Longrightarrow> \<not> py_isspace (last (py_strip s))"
proof -
  assume "py_strip s \<noteq> []"
  then have ne: "dropWhile py_isspace (rev (dropWhile py_isspace s)) \<noteq> []"
    by (simp add: py_strip_def)
  from hd_dropWhile [OF ne] show ?thesis
    using ne by (simp add: py_strip_def last_rev)
qed

lemma rstrip_hd:
  assumes "t \<noteq> []" "\<not> P (hd t)"
  shows "rev (dropWhile P (rev t)) \<noteq> [] \<and> hd (rev (dropWhile P (rev t))) = hd t"
proof -
  from assms obtain x xs where t: "t = x # xs" "\<not> P x" by (cases t) auto
  then have "dropWhile P (rev t) = dropWhile P (rev xs) @ [x]"
    by (simp add: dropWhile_append3)
  then have "rev (dropWhile P (rev t)) = x # rev (dropWhile P (rev xs))" by simp
  with t show ?thesis by simp
qed

lemma py_strip_hd: "py_strip s \<noteq> [] \<Longrightarrow> \<not> py_isspace (hd (py_strip s))"
proof -
  assume ne: "py_strip s \<noteq> []"
  let ?t = "dropWhile py_isspace s"
  have "?t = [] \<Longrightarrow> py_strip s = []"
    by (simp only: py_strip_def rev.simps dropWhile.simps)
  with ne have t: "?t \<noteq> []" by blast
  from hd_dropWhile [OF t] have h: "\<not> py_isspace (hd ?t)" .
  from rstrip_hd [of ?t py_isspace, OF t h] h show ?thesis
    by (simp add: py_strip_def)
qed

lemma py_strip_not_starts: "\<not> starts_with_space (py_strip s)"
proof (cases "py_strip s")
  case Nil
  then show ?thesis by simp
next
  case (Cons c t)
  then have "\<not> py_isspace c" using py_strip_hd [of s] by simp
  with Cons show ?thesis using isspace_32 by auto
qed

lemma py_strip_not_ends: "\<not> ends_with_space (py_strip s)"
proof
  assume "ends_with_space (py_strip s)"
  then obtain t where t: "py_strip s = t @ [32]" by (auto simp: ends_with_space_iff)
  then have "py_strip s \<noteq> []" by simp
  from py_strip_last [OF this] t show False using isspace_32 by simp
qed

lemma pulisci_testo_cleaned: "cleaned (pulisci_testo tbl repr x)"
proof (cases "isna x")
  case True
  then show ?thesis by (simp add: pulisci_testo_def cleaned_def ends_with_space_def)
next
  case False
  then show ?thesis
    using pulisci_testo_allowed [of tbl repr x]
    by (simp add: pulisci_testo_def cleaned_def Let_def py_strip_not_starts py_strip_not_ends
        py_strip_no_adjacent sub_spaces_no_adjacent)
qed

subsection \<open>Cleaned strings are fixed points\<close>


lemma unidecode_ascii: "\<forall>c\<in>set s. c < 128 \<Longrightarrow> unidecode tbl s = s"
  by (induction s) (auto simp: unidecode_def)

lemma sub_not_allowed_id: "list_all allowed s \<Longrightarrow> sub_not_allowed s = s"
  by (induction s) (auto simp: sub_not_allowed_def)

lemma sub_spaces_id:
  "list_all allowed s \<Longrightarrow> \<not> adjacent_spaces s \<Longrightarrow> sub_spaces s = s"
proof (induction s rule: sub_spaces.induct)
  case 1
  then show ?case by simp
next
  case (2 c cs)
  from "2.prems" have ac: "allowed c" and acs: "list_all allowed cs" by simp_all
  from "2.prems" have ncs: "\<not> adjacent_spaces cs" by (cases cs) auto
  show ?case
  proof (cases "py_isspace c")
    case True
    with ac have c: "c = 32" by (simp add: allowed_isspace)
    have d: "dropWhile py_isspace cs = cs"
    proof (cases cs)
      case Nil
      then show ?thesis by simp
    next
      case (Cons d ds)
      with "2.prems" c have "d \<noteq> 32" by auto
      moreover from Cons acs have "allowed d" by simp
      ultimately have "\<not> py_isspace d" by (simp add: allowed_isspace)
      with Cons show ?thesis by simp
    qed
    from "2.IH"(1) [OF True] acs ncs d have "sub_spaces cs = cs" by simp
    with True c d show ?thesis by simp
  next
    case False
    from "2.IH"(2) [OF False acs ncs] False show ?thesis by simp
  qed
qed

lemma py_strip_id:
  assumes "list_all allowed s" "\<not> starts_with_space s" "\<not> ends_with_space s"
  shows "py_strip s = s"
proof (cases s)
  case Nil
  then show ?thesis by (simp add: py_strip_def)
next
  case (Cons c t)
  with assms have "allowed c" "c \<noteq> 32" by simp_all
  then have "\<not> py_isspace c" by (simp add: allowed_isspace)
  with Cons have l: "dropWhile py_isspace s = s" by simp
  from Cons have "rev s \<noteq> []" by simp
  then obtain d u where du: "rev s = d # u" by (cases "rev s") auto
  with assms(3) have "d \<noteq> 32" by (simp add: ends_with_space_def)
  moreover have "d \<in> set s" using du by (metis list.set_intros(1) set_rev)
  with assms(1) have "allowed d" by (simp add: list_all_iff)
  ultimately have "\<not> py_isspace d" by (simp add: allowed_isspace)
  with du have "dropWhile py_isspace (rev s) = rev s" by simp
  with l show ?thesis by (simp add: py_strip_def)
qed

lemma cleaned_fixed: "cleaned s \<Longrightarrow> pulisci_testo tbl repr (Str s) = s"
proof -
  assume c: "cleaned s"
  then have a: "list_all allowed s" by (simp add: cleaned_def)
  then have "\<forall>c\<in>set s. c < 128" by (auto simp: list_all_iff allowed_ascii)
  then have "unidecode tbl s = s" by (rule unidecode_ascii)
  moreover from a have "sub_not_allowed s = s" by (rule sub_not_allowed_id)
  moreover from a c have "sub_spaces s = s" by (simp add: sub_spaces_id cleaned_def)
  moreover from a c have "py_strip s = s" by (simp add: py_strip_id cleaned_def)
  ultimately show ?thesis by (simp add: pulisci_testo_def)
qed

subsection \<open>The substitution of whitespace runs\<close>

lemma concat_runs: "concat (runs P s) = s"
  by (induction P s rule: runs.induct) simp_all

text \<open>
  The lists of \<open>runs\<close> are the maximal runs: they are not empty, all characters of
  one are of the same kind, and two neighbours are of different kinds.
\<close>

lemma takeWhile_all: "\<forall>y\<in>set (takeWhile Q xs). Q y"
  by (induction xs) auto

lemma runs_homogeneous: "r \<in> set (runs P s) \<Longrightarrow> r \<noteq> [] \<and> (\<forall>z\<in>set r. P z = P (hd r))"
proof (induction P s rule: runs.induct)
  case (1 P)
  then show ?case by simp
next
  case (2 P x xs)
  let ?Q = "\<lambda>y. P y = P x"
  from "2.prems" have "r \<in> set ((x # takeWhile ?Q xs) # runs P (dropWhile ?Q xs))"
    by (simp only: runs.simps)
  then consider "r = x # takeWhile ?Q xs" | "r \<in> set (runs P (dropWhile ?Q xs))"
    by (auto simp only: list.set insert_iff)
  then show ?case
  proof cases
    case 1
    have tw: "\<forall>y\<in>set (takeWhile ?Q xs). ?Q y" by (rule takeWhile_all)
    show ?thesis
    proof (intro conjI ballI)
      show "r \<noteq> []" unfolding 1 by (rule list.distinct(2))
    next
      fix z assume "z \<in> set r"
      then have "z = x \<or> z \<in> set (takeWhile ?Q xs)" unfolding 1 by (simp only: list.set insert_iff)
      moreover have "hd r = x" unfolding 1 by (rule list.sel(1))
      ultimately show "P z = P (hd r)" using tw by metis
    qed
  next
    case 2
    then show ?thesis by (rule "2.IH")
  qed
qed

lemma runs_hd: "runs P s = r # rs \<Longrightarrow> s \<noteq> [] \<and> hd r = hd s"
proof (cases s)
  case Nil
  assume "runs P s = r # rs"
  with Nil show ?thesis by (simp only: runs.simps list.distinct)
next
  case (Cons x xs)
  assume "runs P s = r # rs"
  with Cons have "r = x # takeWhile (\<lambda>y. P y = P x) xs" by (simp only: runs.simps list.inject)
  with Cons show ?thesis by (simp only: list.sel list.distinct not_False_eq_True simp_thms)
qed

lemma runs_maximal: "runs P s = us @ r1 # r2 # vs \<Longrightarrow> P (hd r2) \<noteq> P (hd r1)"
proof (induction P s arbitrary: us rule: runs.induct)
  case (1 P)
  then show ?case by simp
next
  case (2 P x xs)
  let ?Q = "\<lambda>y. P y = P x"
  let ?d = "dropWhile ?Q xs"
  from "2.prems" have eq: "(x # takeWhile ?Q xs) # runs P ?d = us @ r1 # r2 # vs"
    by (simp only: runs.simps)
  show ?case
  proof (cases us)
    case Nil
    with eq have r1: "r1 = x # takeWhile ?Q xs" and r2: "runs P ?d = r2 # vs"
      by (simp_all only: append_Nil list.inject)
    from runs_hd [OF r2] have ne: "?d \<noteq> []" and hd: "hd r2 = hd ?d" by blast+
    from hd_dropWhile [OF ne] have "P (hd ?d) \<noteq> P x" .
    moreover have "hd r1 = x" unfolding r1 by (rule list.sel(1))
    ultimately show ?thesis using hd by metis
  next
    case (Cons u us')
    with eq have "runs P ?d = us' @ r1 # r2 # vs" by (simp only: append_Cons list.inject)
    then show ?thesis by (rule "2.IH")
  qed
qed

lemma sub_spaces_nonspace_prefix:
  "sub_spaces s = takeWhile (\<lambda>y. \<not> py_isspace y) s @ sub_spaces (dropWhile (\<lambda>y. \<not> py_isspace y) s)"
  by (induction s) auto

lemma sub_spaces_collapse: "sub_spaces s = whitespace_collapse s"
  unfolding whitespace_collapse_def
proof (induction py_isspace s rule: runs.induct)
  case 1
  then show ?case by simp
next
  case (2 x xs)
  show ?case
  proof (cases "py_isspace x")
    case True
    then have eq: "(\<lambda>y. py_isspace y = py_isspace x) = py_isspace" by auto
    have "list_all py_isspace (takeWhile py_isspace xs)"
      by (auto simp: list_all_iff dest: set_takeWhileD)
    with True eq 2 show ?thesis by simp
  next
    case False
    then have eq: "(\<lambda>y. py_isspace y = py_isspace x) = (\<lambda>y. \<not> py_isspace y)" by auto
    from False have "sub_spaces (x # xs) = x # sub_spaces xs" by simp
    also have "\<dots> = x # takeWhile (\<lambda>y. \<not> py_isspace y) xs
        @ sub_spaces (dropWhile (\<lambda>y. \<not> py_isspace y) xs)"
      using sub_spaces_nonspace_prefix [of xs] by simp
    finally show ?thesis using False eq 2 by simp
  qed
qed

subsection \<open>The steps of the code and the steps of the specification\<close>

lemma unidecode_transliterate: "unidecode tbl s = transliterate tbl s"
proof -
  have "(\<lambda>c. if c < 128 then [c] else tbl c) = (\<lambda>c. if 128 \<le> c then tbl c else [c])"
    by (rule ext) auto
  then show ?thesis by (simp add: unidecode_def transliterate_def)
qed

lemma sub_not_allowed_filter: "sub_not_allowed s = char_filter s"
  by (simp add: sub_not_allowed_def char_filter_def allowed_alphabet)

lemma dropWhile_isspace_allowed:
  "list_all allowed t \<Longrightarrow> dropWhile py_isspace t = dropWhile (\<lambda>c. c = 32) t"
  by (rule dropWhile_cong) (auto simp: list_all_iff allowed_isspace)

lemma py_strip_trim: "list_all allowed t \<Longrightarrow> py_strip t = trim t"
proof -
  assume a: "list_all allowed t"
  let ?u = "dropWhile (\<lambda>c. c = 32) t"
  from a have 1: "dropWhile py_isspace t = ?u" by (rule dropWhile_isspace_allowed)
  from a have "list_all allowed (rev ?u)"
    by (auto simp: list_all_iff dest: set_dropWhileD)
  then have "dropWhile py_isspace (rev ?u) = dropWhile (\<lambda>c. c = 32) (rev ?u)"
    by (rule dropWhile_isspace_allowed)
  with 1 show ?thesis by (simp add: py_strip_def trim_def)
qed

lemma steps_of_text:
  "py_strip (sub_spaces (sub_not_allowed (unidecode tbl s)))
     = trim (whitespace_collapse (char_filter (transliterate tbl s)))"
proof -
  have "list_all allowed (sub_spaces (sub_not_allowed (unidecode tbl s)))"
    by (simp add: sub_spaces_allowed sub_not_allowed_allowed)
  then have "py_strip (sub_spaces (sub_not_allowed (unidecode tbl s)))
      = trim (sub_spaces (sub_not_allowed (unidecode tbl s)))"
    by (rule py_strip_trim)
  then show ?thesis
    by (simp add: unidecode_transliterate sub_not_allowed_filter sub_spaces_collapse)
qed

section \<open>Properties of the table operations\<close>

subsection \<open>Dropping the empty rows\<close>

lemma filter_zip_mask: "map fst (filter snd (zip xs (map f xs))) = filter f xs"
  by (induction xs) auto

lemma notna_any_iff: "notna_any cells \<longleftrightarrow> (\<exists>v\<in>set cells. \<not> isna v)"
  by (simp add: notna_any_def list_ex_iff)

lemma rows_dropna_all: "rows (dropna_all df) = filter (\<lambda>r. notna_any (snd r)) (rows df)"
  by (simp add: dropna_all_def filter_zip_mask)

subsection \<open>The loop over the text columns\<close>

lemma position_None_iff: "position x xs = None \<longleftrightarrow> x \<notin> set xs"
  by (induction xs) auto

lemma position_Some: "position x xs = Some j \<Longrightarrow> j < length xs \<and> xs ! j = x"
  by (induction xs arbitrary: j) (auto split: if_splits)

lemma map_zip_same: "map (\<lambda>(r, v). F r v) (zip rs (map h rs)) = map (\<lambda>r. F r (h r)) rs"
  by (induction rs) auto

lemma pulisci_colonna_present:
  assumes "position col (columns df) = Some j"
  shows "pulisci_colonna tbl repr df col
    = Inr (df\<lparr>rows := map (\<lambda>r. (fst r, clean_at tbl repr j (snd r))) (rows df)\<rparr>)"
proof -
  from assms have "col \<in> set (columns df)" using position_None_iff [of col "columns df"] by auto
  moreover have "map (\<lambda>(r, v). (fst r, (snd r)[j := v]))
      (zip (rows df) (map (\<lambda>r. Str (pulisci_testo tbl repr (snd r ! j))) (rows df)))
    = map (\<lambda>r. (fst r, clean_at tbl repr j (snd r))) (rows df)"
    unfolding clean_at_def by (rule map_zip_same)
  ultimately show ?thesis using assms
    by (simp add: pulisci_colonna_def getitem_def setitem_def apply_pulisci_testo_def o_def)
qed

lemma pulisci_colonna_absent:
  "col \<notin> set (columns df) \<Longrightarrow> pulisci_colonna tbl repr df col = Inr df"
  by (simp add: pulisci_colonna_def)

lemma clean_row_Nil: "length cells = length names \<Longrightarrow> clean_row tbl repr [] names cells = cells"
  unfolding clean_row_def clean_cell_def
  by (induction names cells rule: list_induct2') auto

lemma clean_row_absent:
  "col \<notin> set names \<Longrightarrow> clean_row tbl repr (col # cs) names cells = clean_row tbl repr cs names cells"
  unfolding clean_row_def clean_cell_def
  by (induction names cells rule: list_induct2') auto

lemma clean_row_present:
  assumes "distinct names" "length cells = length names" "j < length names" "names ! j \<notin> set cs"
  shows "clean_row tbl repr cs names (clean_at tbl repr j cells)
    = clean_row tbl repr (names ! j # cs) names cells"
proof (rule nth_equalityI)
  show "length (clean_row tbl repr cs names (clean_at tbl repr j cells))
    = length (clean_row tbl repr (names ! j # cs) names cells)"
    by (simp add: clean_row_def clean_at_def)
next
  fix k assume "k < length (clean_row tbl repr cs names (clean_at tbl repr j cells))"
  with assms(2) have k: "k < length names" by (simp add: clean_row_def clean_at_def)
  show "clean_row tbl repr cs names (clean_at tbl repr j cells) ! k
    = clean_row tbl repr (names ! j # cs) names cells ! k"
  proof (cases "k = j")
    case True
    with assms k show ?thesis by (simp add: clean_row_def clean_at_def clean_cell_def)
  next
    case False
    with assms(1,3) k have "names ! k \<noteq> names ! j" by (simp add: nth_eq_iff_index_eq)
    with False assms k show ?thesis by (simp add: clean_row_def clean_at_def clean_cell_def)
  qed
qed

lemma pulisci_colonne_rows:
  assumes "wf_dataframe df" "distinct cs"
  shows "pulisci_colonne tbl repr cs df
    = Inr (df\<lparr>rows := map (\<lambda>r. (fst r, clean_row tbl repr cs (columns df) (snd r))) (rows df)\<rparr>)"
  using assms
proof (induction cs arbitrary: df)
  case Nil
  have "map (\<lambda>r. (fst r, clean_row tbl repr [] (columns df) (snd r))) (rows df) = rows df"
  proof (rule map_idI)
    fix r assume "r \<in> set (rows df)"
    with Nil(1) have "length (snd r) = length (columns df)"
      by (simp add: wf_dataframe_def list_all_iff)
    then show "(fst r, clean_row tbl repr [] (columns df) (snd r)) = r"
      by (simp add: clean_row_Nil)
  qed
  then show ?case by simp
next
  case (Cons col cs)
  from Cons.prems have d: "distinct (columns df)"
    and len: "\<And>r. r \<in> set (rows df) \<Longrightarrow> length (snd r) = length (columns df)"
    by (simp_all add: wf_dataframe_def list_all_iff)
  from Cons.prems have dcs: "distinct cs" and ncs: "col \<notin> set cs" by simp_all
  show ?case
  proof (cases "position col (columns df)")
    case None
    then have a: "col \<notin> set (columns df)" by (simp add: position_None_iff)
    then have "pulisci_colonna tbl repr df col = Inr df" by (rule pulisci_colonna_absent)
    with Cons.IH [OF Cons.prems(1) dcs] a show ?thesis by (simp add: clean_row_absent)
  next
    case (Some j)
    let ?df1 = "df\<lparr>rows := map (\<lambda>r. (fst r, clean_at tbl repr j (snd r))) (rows df)\<rparr>"
    from Some have j: "j < length (columns df)" "columns df ! j = col"
      using position_Some by fastforce+
    have wf1: "wf_dataframe ?df1"
      using Cons.prems(1) by (auto simp: wf_dataframe_def list_all_iff clean_at_def)
    have step: "pulisci_colonna tbl repr df col = Inr ?df1"
      using Some by (rule pulisci_colonna_present)
    have pr: "clean_row tbl repr cs (columns df) (clean_at tbl repr j (snd r))
        = clean_row tbl repr (col # cs) (columns df) (snd r)" if "r \<in> set (rows df)" for r
    proof -
      from that have "length (snd r) = length (columns df)" by (rule len)
      from clean_row_present [OF d this j(1)] j(2) ncs show ?thesis by simp
    qed
    have "map (\<lambda>r. (fst r, clean_row tbl repr cs (columns df) (snd r)))
        (map (\<lambda>r. (fst r, clean_at tbl repr j (snd r))) (rows df))
      = map (\<lambda>r. (fst r, clean_row tbl repr (col # cs) (columns df) (snd r))) (rows df)"
      by (simp add: o_def pr cong: map_cong)
    with Cons.IH [OF wf1 dcs] step show ?thesis by simp
  qed
qed

lemma distinct_colonne_testo: "distinct colonne_testo"
  by (simp add: colonne_testo_def py_def)

section \<open>The claims about the normalizer\<close>

text \<open>
  Claim C1. For every input value, \<open>pulisci_testo\<close> returns what the steps of the
  specification give in their order: the empty string for a missing value; otherwise
  the text of the value, transliterated, every character outside the alphabet replaced
  by a space, every maximal run of whitespace replaced by a single space, and the
  spaces at both ends removed.
\<close>

theorem pulisci_testo_steps: "pulisci_testo tbl repr v = normalize tbl repr v"
proof (cases v)
  case Missing
  then show ?thesis by (simp add: pulisci_testo_def)
next
  case (Str s)
  then show ?thesis by (simp add: pulisci_testo_def steps_of_text)
next
  case (Scalar a)
  then show ?thesis by (simp add: pulisci_testo_def steps_of_text)
qed

text \<open>
  Claim C2. The normalizer is idempotent: cleaning the string that it returned for any
  input, a string, another scalar or the missing value, returns that string again.
\<close>

theorem pulisci_testo_idempotent:
  "pulisci_testo tbl repr (Str (pulisci_testo tbl repr x)) = pulisci_testo tbl repr x"
  by (rule cleaned_fixed) (rule pulisci_testo_cleaned)

text \<open>
  Claim C3. Alphabet closure: every character of the result is an ASCII letter, a
  digit, the space or the hyphen.
\<close>

theorem pulisci_testo_alphabet: "set (pulisci_testo tbl repr x) \<subseteq> alphabet"
  using pulisci_testo_allowed [of tbl repr x] by (auto simp: list_all_iff allowed_alphabet)

text \<open>
  Claim C4. The result contains no two consecutive spaces, does not start with a space
  and does not end with a space (32 is the code point of the space).
\<close>

theorem pulisci_testo_spaces:
  "\<not> (\<exists>u v. pulisci_testo tbl repr x = u @ [32, 32] @ v)
   \<and> \<not> (\<exists>t. pulisci_testo tbl repr x = 32 # t)
   \<and> \<not> (\<exists>t. pulisci_testo tbl repr x = t @ [32])"
  using pulisci_testo_cleaned [of tbl repr x]
  unfolding cleaned_def adjacent_spaces_iff starts_with_space_iff ends_with_space_iff
  by blast

text \<open>
  Claim C5. The normalizer is total and has no error condition: \<open>pulisci_testo\<close> is a
  function into strings with no error value, its one loop (\<open>sub_spaces\<close>) terminates on
  every string, and so every input has a result; the missing value and the empty string
  both give the empty string.
\<close>

theorem pulisci_testo_total:
  "pulisci_testo tbl repr Missing = []
   \<and> pulisci_testo tbl repr (Str []) = []
   \<and> (\<exists>s. pulisci_testo tbl repr x = s)"
  by (simp add: pulisci_testo_def unidecode_def sub_not_allowed_def py_strip_def)

text \<open>
  Claim C8. The examples of section 8, for every transliteration table that maps
  \<open>U+00C4\<close> to \<open>A\<close>, \<open>U+00D8\<close> to \<open>O\<close>, \<open>U+00E9\<close> to \<open>e\<close>, \<open>U+00FC\<close> to \<open>u\<close> and the en dash
  \<open>U+2013\<close> to the hyphen. The last two examples are ASCII and hold for every table.
\<close>

theorem pulisci_testo_esempi:
  assumes "tbl 0xC4 = py ''A''" and "tbl 0xD8 = py ''O''" and "tbl 0xE9 = py ''e''"
    and "tbl 0xFC = py ''u''" and "tbl 0x2013 = py ''-''"
  shows "pulisci_testo tbl repr
           (Str (py ''Caf'' @ [0xE9, 0x2013] @ py ''M'' @ [0xFC] @ py ''nchner''))
           = py ''Cafe-Munchner''
    \<and> pulisci_testo tbl repr (Str ([0xC4] @ py ''rea '' @ [0xD8] @ py ''1'')) = py ''Area O1''
    \<and> pulisci_testo tbl repr (Str (py ''12 Rue d'Or'')) = py ''12 Rue d Or''
    \<and> pulisci_testo tbl repr (Str (py ''Italian/French!!'')) = py ''Italian French''"
  using assms
  by (simp add: pulisci_testo_def unidecode_def sub_not_allowed_def allowed_def py_isspace_def
      py_strip_def py_def)

theorem pulisci_testo_esempi_witness:
  "tbl_esempi 0xC4 = py ''A'' \<and> tbl_esempi 0xD8 = py ''O'' \<and> tbl_esempi 0xE9 = py ''e''
    \<and> tbl_esempi 0xFC = py ''u'' \<and> tbl_esempi 0x2013 = py ''-''
    \<and> pulisci_testo tbl_esempi str_bool
           (Str (py ''Caf'' @ [0xE9, 0x2013] @ py ''M'' @ [0xFC] @ py ''nchner''))
           = py ''Cafe-Munchner''
    \<and> pulisci_testo tbl_esempi str_bool (Str ([0xC4] @ py ''rea '' @ [0xD8] @ py ''1''))
           = py ''Area O1''
    \<and> pulisci_testo tbl_esempi str_bool (Str (py ''12 Rue d'Or'')) = py ''12 Rue d Or''
    \<and> pulisci_testo tbl_esempi str_bool (Str (py ''Italian/French!!'')) = py ''Italian French''"
proof -
  have t: "tbl_esempi 0xC4 = py ''A''" "tbl_esempi 0xD8 = py ''O''" "tbl_esempi 0xE9 = py ''e''"
    "tbl_esempi 0xFC = py ''u''" "tbl_esempi 0x2013 = py ''-''"
    by (simp_all add: tbl_esempi_def)
  from pulisci_testo_esempi [of tbl_esempi str_bool, OF t] t show ?thesis by blast
qed

text \<open>
  Claim C10. Fixed points: a string whose characters are all of the alphabet, which
  neither starts nor ends with a space and contains no two consecutive spaces, is
  returned unchanged.
\<close>

theorem cleaned_form_fixed_point:
  assumes "set s \<subseteq> alphabet"
    and "\<not> (\<exists>t. s = 32 # t)" and "\<not> (\<exists>t. s = t @ [32])"
    and "\<not> (\<exists>u v. s = u @ [32, 32] @ v)"
  shows "pulisci_testo tbl repr (Str s) = s"
proof -
  from assms(1) have "list_all allowed s" by (auto simp: list_all_iff allowed_alphabet)
  with assms(2-4) have "cleaned s"
    unfolding cleaned_def adjacent_spaces_iff starts_with_space_iff ends_with_space_iff
    by blast
  then show ?thesis by (rule cleaned_fixed)
qed

theorem cleaned_form_fixed_point_witness:
  "set (py ''12 Rue d Or'') \<subseteq> alphabet
   \<and> \<not> (\<exists>t. py ''12 Rue d Or'' = 32 # t)
   \<and> \<not> (\<exists>t. py ''12 Rue d Or'' = t @ [32])
   \<and> \<not> (\<exists>u v. py ''12 Rue d Or'' = u @ [32, 32] @ v)
   \<and> pulisci_testo tbl_esempi str_bool (Str (py ''12 Rue d Or'')) = py ''12 Rue d Or''"
proof -
  have c: "cleaned (py ''12 Rue d Or'')"
    by (simp add: cleaned_def py_def allowed_def ends_with_space_def)
  then have 1: "set (py ''12 Rue d Or'') \<subseteq> alphabet"
    by (auto simp: cleaned_def list_all_iff allowed_alphabet)
  from c have 2: "\<not> (\<exists>t. py ''12 Rue d Or'' = 32 # t)"
    unfolding cleaned_def starts_with_space_iff by blast
  from c have 3: "\<not> (\<exists>t. py ''12 Rue d Or'' = t @ [32])"
    unfolding cleaned_def ends_with_space_iff by blast
  from c have 4: "\<not> (\<exists>u v. py ''12 Rue d Or'' = u @ [32, 32] @ v)"
    unfolding cleaned_def adjacent_spaces_iff by blast
  from cleaned_form_fixed_point [OF 1 2 3 4] 1 2 3 4 show ?thesis by blast
qed

section \<open>The claims about the table\<close>

text \<open>
  Claim C6. Row filtering: after \<open>dropna_all\<close> the columns are the same, every row whose
  fields are all missing is gone, every row with a field that is not missing is still
  there, and the remaining rows are exactly the rows with such a field, in the order of
  the input.
\<close>

theorem dropna_all_rows:
  "columns (dropna_all df) = columns df
   \<and> (\<forall>r\<in>set (rows df). (\<forall>v\<in>set (snd r). isna v) \<longrightarrow> r \<notin> set (rows (dropna_all df)))
   \<and> (\<forall>r\<in>set (rows df). (\<exists>v\<in>set (snd r). \<not> isna v) \<longrightarrow> r \<in> set (rows (dropna_all df)))
   \<and> rows (dropna_all df) = filter (\<lambda>r. \<exists>v\<in>set (snd r). \<not> isna v) (rows df)
   \<and> subseq (rows (dropna_all df)) (rows df)"
proof -
  have "columns (dropna_all df) = columns df" by (simp add: dropna_all_def)
  moreover have "rows (dropna_all df) = filter (\<lambda>r. \<exists>v\<in>set (snd r). \<not> isna v) (rows df)"
    by (simp add: rows_dropna_all notna_any_iff)
  moreover have "subseq (rows (dropna_all df)) (rows df)"
    by (simp add: rows_dropna_all)
  ultimately show ?thesis by auto
qed

theorem dropna_all_rows_witness:
  "(py ''1'', [Missing, Missing, Missing]) \<in> set (rows esempio_df)
   \<and> (py ''1'', [Missing, Missing, Missing]) \<notin> set (rows (dropna_all esempio_df))
   \<and> (py ''2'', [Missing, Str (py ''20 EUR''), Missing]) \<in> set (rows (dropna_all esempio_df))
   \<and> rows (dropna_all esempio_df) = [rows esempio_df ! 0, rows esempio_df ! 2]"
  using dropna_all_rows [of esempio_df] by (simp add: esempio_df_def py_def)

text \<open>
  Claim C7. Column scoping: on a frame with distinct column names and full rows the
  loop over the text columns raises no error, also when some of the seven names are not
  columns of the frame (a name that is not a column leaves the frame as it is); it
  keeps the columns, the rows and their labels, replaces every
  cell of a column named \<open>Nome\<close>, \<open>Nazione\<close>, \<open>Citta\<close>, \<open>Indirizzo\<close>, \<open>Delivery\<close>, \<open>Online\<close> or
  \<open>Tipo_di_cucina\<close> by its cleaned text, and leaves every cell of every other column as
  it was.
\<close>

theorem text_columns_only:
  assumes "wf_dataframe df"
  shows "(\<exists>df'. pulisci_colonne tbl repr colonne_testo df = Inr df'
     \<and> columns df' = columns df \<and> length (rows df') = length (rows df)
     \<and> (\<forall>i<length (rows df). fst (rows df' ! i) = fst (rows df ! i)
          \<and> length (snd (rows df' ! i)) = length (columns df)
          \<and> (\<forall>j<length (columns df). snd (rows df' ! i) ! j =
               (if columns df ! j \<in> set colonne_testo
                then Str (pulisci_testo tbl repr (snd (rows df ! i) ! j))
                else snd (rows df ! i) ! j))))
     \<and> (\<forall>col. col \<notin> set (columns df) \<longrightarrow> pulisci_colonna tbl repr df col = Inr df)"
    (is "?loop \<and> ?skip")
proof -
  let ?df' = "df\<lparr>rows := map (\<lambda>r. (fst r, clean_row tbl repr colonne_testo (columns df) (snd r)))
    (rows df)\<rparr>"
  have run: "pulisci_colonne tbl repr colonne_testo df = Inr ?df'"
    using assms distinct_colonne_testo by (rule pulisci_colonne_rows)
  have cells: "fst (rows ?df' ! i) = fst (rows df ! i)
      \<and> length (snd (rows ?df' ! i)) = length (columns df)
      \<and> (\<forall>j<length (columns df). snd (rows ?df' ! i) ! j =
            (if columns df ! j \<in> set colonne_testo
             then Str (pulisci_testo tbl repr (snd (rows df ! i) ! j))
             else snd (rows df ! i) ! j))" if "i < length (rows df)" for i
  proof -
    from that have "rows df ! i \<in> set (rows df)" by simp
    with assms have "length (snd (rows df ! i)) = length (columns df)"
      by (simp add: wf_dataframe_def list_all_iff)
    with that show ?thesis by (simp add: clean_row_def clean_cell_def)
  qed
  have "columns ?df' = columns df \<and> length (rows ?df') = length (rows df)" by simp
  with run cells have ?loop by blast
  moreover have ?skip by (simp add: pulisci_colonna_absent)
  ultimately show ?thesis by (rule conjI)
qed

theorem text_columns_only_witness:
  "wf_dataframe esempio_df
   \<and> pulisci_colonne tbl_esempi str_bool colonne_testo esempio_df =
       Inr \<lparr>columns = [py ''Nome'', py ''Prezzo'', py ''Online''],
         rows = [(py ''0'', [Str (py ''Cafe''), Str (py ''$$''), Str (py ''True'')]),
                 (py ''1'', [Str [], Missing, Str []]),
                 (py ''2'', [Str [], Str (py ''20 EUR''), Str []])]\<rparr>"
proof -
  have wf: "wf_dataframe esempio_df"
    by (simp add: wf_dataframe_def esempio_df_def py_def)
  have run: "pulisci_colonne tbl_esempi str_bool colonne_testo esempio_df =
       Inr \<lparr>columns = [py ''Nome'', py ''Prezzo'', py ''Online''],
         rows = [(py ''0'', [Str (py ''Cafe''), Str (py ''$$''), Str (py ''True'')]),
                 (py ''1'', [Str [], Missing, Str []]),
                 (py ''2'', [Str [], Str (py ''20 EUR''), Str []])]\<rparr>"
    by (simp add: colonne_testo_def esempio_df_def pulisci_colonna_def getitem_def setitem_def
        apply_pulisci_testo_def pulisci_testo_def unidecode_def sub_not_allowed_def allowed_def
        py_isspace_def py_strip_def tbl_esempi_def str_bool_def py_def)
  from text_columns_only [OF wf, of tbl_esempi str_bool] wf run show ?thesis by blast
qed

text \<open>
  Claim C9. Writer contract: with \<^verbatim>\<open>index=False\<close>, \<^verbatim>\<open>sep=';'\<close> and \<^verbatim>\<open>na_rep=''\<close> the
  output is the line of the header record, which is the list of the column names in
  their order, and then one line for each row in the order of the table; every line is
  written with the semicolon as delimiter; the record of a row has exactly the texts of
  its cells as fields, so no field for the row label, and the text of a missing value
  is empty.
\<close>

theorem to_csv_contract:
  "to_csv repr writerow df False (py '';'') []
     = writerow (py '';'') (columns df)
       # map (\<lambda>r. writerow (py '';'') (map (cell_text repr []) (snd r))) (rows df)
   \<and> length (to_csv repr writerow df False (py '';'') []) = Suc (length (rows df))
   \<and> csv_records repr df False [] ! 0 = columns df
   \<and> (\<forall>i<length (rows df).
         csv_records repr df False [] ! Suc i = map (cell_text repr []) (snd (rows df ! i))
         \<and> to_csv repr writerow df False (py '';'') [] ! Suc i
             = writerow (py '';'') (map (cell_text repr []) (snd (rows df ! i))))
   \<and> (\<forall>v. isna v \<longrightarrow> cell_text repr [] v = [])"
  by (simp add: to_csv_def csv_records_def cell_text_def o_def)

theorem to_csv_contract_witness:
  "to_csv str_bool join esempio_df False (py '';'') []
     = [py ''Nome;Prezzo;Online'', [67, 97, 102, 0xE9] @ py '';$$;True'', py '';;'',
        py '';20 EUR;'']"
  using to_csv_contract [of str_bool join esempio_df]
  by (simp add: esempio_df_def py_def cell_text_def str_bool_def)

end
